theory Spec2Isabelle
  imports Complex_Main "HOL-Library.List_Lexorder"
begin

section \<open>Python values shared by the kernel services\<close>

text \<open>
  A Python \<open>str\<close> is a sequence of Unicode code points: \<open>len\<close>, slicing and comparison
  all work on code points, so a string is modelled as a list of code-point numbers.
  The lexicographic order on lists is the order Python uses for \<open>sorted\<close> on strings.
\<close>

type_synonym pystr = "nat list"

definition lit :: "string \<Rightarrow> pystr" where
  "lit s = map of_char s"

text \<open>The exceptions raised on the paths modelled here.\<close>

datatype error = ValueError | KeyError | IndexError | OverflowError

section \<open>ToolAccessManager (RBAC and audit log)\<close>

record audit_entry =
  ae_timestamp :: pystr
  ae_principal :: pystr
  ae_tool :: pystr
  ae_role :: "pystr option"
  ae_allowed :: bool

text \<open>
  \<open>_roles\<close> is a \<open>defaultdict(set)\<close> from role name to tool names, \<open>_principals\<close> a dict
  from principal to role name, \<open>_audit_log\<close> a list.
\<close>

record ToolAccessManager =
  roles :: "pystr \<rightharpoonup> pystr set"
  principals :: "pystr \<rightharpoonup> pystr"
  audit_log :: "audit_entry list"

definition ToolAccessManager_init :: ToolAccessManager where
  "ToolAccessManager_init = \<lparr>roles = Map.empty, principals = Map.empty, audit_log = []\<rparr>"

text \<open>\<open>d.get(k, set())\<close> on the role table: no entry is created.\<close>

definition roles_get :: "ToolAccessManager \<Rightarrow> pystr \<Rightarrow> pystr set" where
  "roles_get st role = (case roles st role of None \<Rightarrow> {} | Some s \<Rightarrow> s)"

text \<open>
  \<open>self._roles[role].update(tools)\<close>: indexing the defaultdict creates the empty set for a
  new role, \<open>update\<close> adds every listed tool.
\<close>

definition define_role :: "ToolAccessManager \<Rightarrow> pystr \<Rightarrow> pystr list \<Rightarrow> ToolAccessManager" where
  "define_role st role tools =
     st\<lparr>roles := (roles st)(role \<mapsto> (case roles st role of None \<Rightarrow> {} | Some s \<Rightarrow> s) \<union> set tools)\<rparr>"

definition assign_role :: "ToolAccessManager \<Rightarrow> pystr \<Rightarrow> pystr \<Rightarrow> ToolAccessManager" where
  "assign_role st prin role = st\<lparr>principals := (principals st)(prin \<mapsto> role)\<rparr>"

text \<open>
  \<open>check_access\<close> returns the decision together with the updated manager. The timestamp
  \<open>datetime.now().isoformat()\<close> is an input of the model. The body has no raising
  statement (\<open>dict.get\<close>, set membership, \<open>list.append\<close>), so the result is not a sum.
\<close>

definition check_access ::
  "ToolAccessManager \<Rightarrow> pystr \<Rightarrow> pystr \<Rightarrow> pystr \<Rightarrow> bool \<times> ToolAccessManager" where
  "check_access st prin tool now =
     (let role = principals st prin;
          allowed = (case role of None \<Rightarrow> False | Some r \<Rightarrow> tool \<in> roles_get st r)
      in (allowed,
          st\<lparr>audit_log := audit_log st @
                [\<lparr>ae_timestamp = now, ae_principal = prin, ae_tool = tool,
                  ae_role = role, ae_allowed = allowed\<rparr>]\<rparr>))"

text \<open>
  \<open>sorted(self._roles.get(role, set()))\<close>. For an unassigned principal \<open>role\<close> is \<open>None\<close>;
  the role table is keyed by role names (\<open>role: str\<close>), so \<open>None\<close> is not a key and the
  default \<open>set()\<close> is taken.
\<close>

definition permitted_tools :: "ToolAccessManager \<Rightarrow> pystr \<Rightarrow> pystr list" where
  "permitted_tools st prin =
     (case principals st prin of
        None \<Rightarrow> sorted_list_of_set {}
      | Some r \<Rightarrow> sorted_list_of_set (roles_get st r))"

text \<open>The operations a caller can perform on the manager, for statements about call sequences.\<close>

datatype tam_op =
    DefineRole pystr "pystr list"
  | AssignRole pystr pystr
  | CheckAccess pystr pystr pystr

fun tam_step :: "ToolAccessManager \<Rightarrow> tam_op \<Rightarrow> ToolAccessManager" where
  "tam_step st (DefineRole role tools) = define_role st role tools"
| "tam_step st (AssignRole prin role) = assign_role st prin role"
| "tam_step st (CheckAccess prin tool now) = snd (check_access st prin tool now)"

definition tam_run :: "ToolAccessManager \<Rightarrow> tam_op list \<Rightarrow> ToolAccessManager" where
  "tam_run st ops = foldl tam_step st ops"

section \<open>ContextManager (per-session sliding window)\<close>

record context_entry =
  ce_role :: pystr
  ce_content :: pystr
  ce_timestamp :: pystr

text \<open>
  \<open>collections.deque(maxlen=n)\<close>: the constructor converts \<open>maxlen\<close> to a C
  \<open>ssize_t\<close> (64 bits) and raises \<open>OverflowError\<close> when it does not fit, then raises
  \<open>ValueError\<close> for a negative \<open>maxlen\<close>; \<open>append\<close> adds on the right and, when the
  deque is then longer than \<open>maxlen\<close>, drops one element on the left (so a deque with
  \<open>maxlen = 0\<close> stays empty).
\<close>

record 'a deque =
  maxlen :: nat
  items :: "'a list"

definition deque_new :: "int \<Rightarrow> error + 'a deque" where
  "deque_new n =
     (if n < - (2 ^ 63) \<or> 2 ^ 63 \<le> n then Inl OverflowError
      else if n < 0 then Inl ValueError
      else Inr \<lparr>maxlen = nat n, items = []\<rparr>)"

definition deque_append :: "'a deque \<Rightarrow> 'a \<Rightarrow> 'a deque" where
  "deque_append d x =
     (let xs = items d @ [x]
      in d\<lparr>items := (if maxlen d < length xs then tl xs else xs)\<rparr>)"

record ContextManager =
  window_size :: int
  sessions :: "pystr \<rightharpoonup> context_entry deque"

definition ContextManager_init :: "int \<Rightarrow> ContextManager" where
  "ContextManager_init w = \<lparr>window_size = w, sessions = Map.empty\<rparr>"

text \<open>
  \<open>self._sessions[session_id]\<close> on the \<open>defaultdict\<close>: a missing session is created by the
  factory \<open>deque(maxlen=self.window_size)\<close> and stored; when the factory raises, nothing
  is stored.
\<close>

definition sessions_getitem ::
  "ContextManager \<Rightarrow> pystr \<Rightarrow> error + (context_entry deque \<times> ContextManager)" where
  "sessions_getitem cm session_id =
     (case sessions cm session_id of
        Some d \<Rightarrow> Inr (d, cm)
      | None \<Rightarrow>
          (case deque_new (window_size cm) of
             Inl e \<Rightarrow> Inl e
           | Inr d \<Rightarrow> Inr (d, cm\<lparr>sessions := (sessions cm)(session_id \<mapsto> d)\<rparr>)))"

definition push ::
  "ContextManager \<Rightarrow> pystr \<Rightarrow> pystr \<Rightarrow> pystr \<Rightarrow> pystr \<Rightarrow> error + ContextManager" where
  "push cm session_id role content now =
     (case sessions_getitem cm session_id of
        Inl e \<Rightarrow> Inl e
      | Inr (d, cm') \<Rightarrow>
          Inr (cm'\<lparr>sessions := (sessions cm')(session_id \<mapsto>
                 deque_append d \<lparr>ce_role = role, ce_content = content, ce_timestamp = now\<rparr>)\<rparr>))"

definition get_context ::
  "ContextManager \<Rightarrow> pystr \<Rightarrow> error + (context_entry list \<times> ContextManager)" where
  "get_context cm session_id =
     (case sessions_getitem cm session_id of
        Inl e \<Rightarrow> Inl e
      | Inr (d, cm') \<Rightarrow> Inr (items d, cm'))"

definition clear :: "ContextManager \<Rightarrow> pystr \<Rightarrow> error + ContextManager" where
  "clear cm session_id =
     (case sessions_getitem cm session_id of
        Inl e \<Rightarrow> Inl e
      | Inr (d, cm') \<Rightarrow> Inr (cm'\<lparr>sessions := (sessions cm')(session_id \<mapsto> d\<lparr>items := []\<rparr>)\<rparr>))"

text \<open>Call sequences on one manager; a call that raises ends the sequence with its error.\<close>

datatype cm_op =
    Push pystr pystr pystr pystr
  | GetContext pystr
  | Clear pystr

fun cm_step :: "ContextManager \<Rightarrow> cm_op \<Rightarrow> error + ContextManager" where
  "cm_step cm (Push session_id role content now) = push cm session_id role content now"
| "cm_step cm (GetContext session_id) =
     (case get_context cm session_id of Inl e \<Rightarrow> Inl e | Inr (_, cm') \<Rightarrow> Inr cm')"
| "cm_step cm (Clear session_id) = clear cm session_id"

fun cm_run :: "ContextManager \<Rightarrow> cm_op list \<Rightarrow> error + ContextManager" where
  "cm_run cm [] = Inr cm"
| "cm_run cm (x # xs) = (case cm_step cm x of Inl e \<Rightarrow> Inl e | Inr cm' \<Rightarrow> cm_run cm' xs)"

text \<open>
  The session a call names, and the entries a sequence of calls leaves for a session when
  nothing is evicted: those pushed to it since it was last cleared, in call order, after
  the entries \<open>acc\<close> it started with. \<open>lastn n\<close> is the last \<open>n\<close> elements of a list: what a
  FIFO window of size \<open>n\<close> keeps of them.
\<close>

fun session_of :: "cm_op \<Rightarrow> pystr" where
  "session_of (Push session_id role content now) = session_id"
| "session_of (GetContext session_id) = session_id"
| "session_of (Clear session_id) = session_id"

fun pushed_since_clear :: "context_entry list \<Rightarrow> pystr \<Rightarrow> cm_op list \<Rightarrow> context_entry list" where
  "pushed_since_clear acc sid [] = acc"
| "pushed_since_clear acc sid (Push session_id role content now # xs) =
     pushed_since_clear
       (if session_id = sid
        then acc @ [\<lparr>ce_role = role, ce_content = content, ce_timestamp = now\<rparr>] else acc)
       sid xs"
| "pushed_since_clear acc sid (GetContext session_id # xs) = pushed_since_clear acc sid xs"
| "pushed_since_clear acc sid (Clear session_id # xs) =
     pushed_since_clear (if session_id = sid then [] else acc) sid xs"

definition lastn :: "nat \<Rightarrow> 'a list \<Rightarrow> 'a list" where
  "lastn n xs = drop (length xs - n) xs"

text \<open>Proof vocabulary: every session's deque was made for the window size and fits it.\<close>

definition cm_inv :: "ContextManager \<Rightarrow> bool" where
  "cm_inv cm =
     (\<forall>sid d. sessions cm sid = Some d \<longrightarrow>
        0 \<le> window_size cm \<and> window_size cm < 2 ^ 63 \<and> maxlen d = nat (window_size cm)
        \<and> length (items d) \<le> nat (window_size cm))"

text \<open>Proof vocabulary: what a session holds, nothing for a session that does not exist.\<close>

definition session_items :: "ContextManager \<Rightarrow> pystr \<Rightarrow> context_entry list" where
  "session_items cm sid = (case sessions cm sid of None \<Rightarrow> [] | Some d \<Rightarrow> items d)"

section \<open>RelationalStore and MemoryManager (long-term memory)\<close>

text \<open>
  \<open>_tables\<close> is a \<open>defaultdict(dict)\<close>: table name to (record id to record). Indexing it
  creates a missing table, also in \<open>get\<close> and \<open>delete\<close>. The record type is a parameter.
\<close>

record 'r RelationalStore =
  tables :: "pystr \<rightharpoonup> (pystr \<rightharpoonup> 'r)"

definition RelationalStore_init :: "'r RelationalStore" where
  "RelationalStore_init = \<lparr>tables = Map.empty\<rparr>"

definition tables_getitem ::
  "'r RelationalStore \<Rightarrow> pystr \<Rightarrow> (pystr \<rightharpoonup> 'r) \<times> 'r RelationalStore" where
  "tables_getitem st table =
     (case tables st table of
        Some t \<Rightarrow> (t, st)
      | None \<Rightarrow> (Map.empty, st\<lparr>tables := (tables st)(table \<mapsto> Map.empty)\<rparr>))"

text \<open>\<open>self._tables[table][record_id] = dict(data)\<close>: a copy with the same contents.\<close>

definition rs_insert :: "'r RelationalStore \<Rightarrow> pystr \<Rightarrow> pystr \<Rightarrow> 'r \<Rightarrow> 'r RelationalStore" where
  "rs_insert st table record_id data =
     (case tables_getitem st table of
        (t, st') \<Rightarrow> st'\<lparr>tables := (tables st')(table \<mapsto> t(record_id \<mapsto> data))\<rparr>)"

definition rs_get ::
  "'r RelationalStore \<Rightarrow> pystr \<Rightarrow> pystr \<Rightarrow> 'r option \<times> 'r RelationalStore" where
  "rs_get st table record_id =
     (case tables_getitem st table of (t, st') \<Rightarrow> (t record_id, st'))"

text \<open>\<open>self._tables[table].pop(record_id, None) is not None\<close>.\<close>

definition rs_delete ::
  "'r RelationalStore \<Rightarrow> pystr \<Rightarrow> pystr \<Rightarrow> bool \<times> 'r RelationalStore" where
  "rs_delete st table record_id =
     (case tables_getitem st table of
        (t, st') \<Rightarrow> (t record_id \<noteq> None,
                     st'\<lparr>tables := (tables st')(table \<mapsto> t(record_id := None))\<rparr>))"

text \<open>
  A long-term memory record is a dict with string keys, in insertion order. Its values are
  strings (namespace, key, timestamp) or the caller's opaque value, whose HOL equality
  stands for deep equality.
\<close>

datatype 'v field = FStr pystr | FVal 'v

type_synonym 'v ltm_record = "(pystr \<times> 'v field) list"

text \<open>
  Of the \<open>DataLayer\<close> the manager holds, long-term memory uses the relational store only.
\<close>

record 'v MemoryManager =
  relational :: "'v ltm_record RelationalStore"

definition composite_key :: "pystr \<Rightarrow> pystr \<Rightarrow> pystr" where
  "composite_key namespace key = namespace @ lit ''::'' @ key"

definition remember_long ::
  "'v MemoryManager \<Rightarrow> pystr \<Rightarrow> pystr \<Rightarrow> 'v \<Rightarrow> pystr \<Rightarrow> 'v MemoryManager" where
  "remember_long mm namespace key val now =
     mm\<lparr>relational := rs_insert (relational mm) (lit ''long_term_memory'')
           (composite_key namespace key)
           [(lit ''namespace'', FStr namespace), (lit ''key'', FStr key),
            (lit ''value'', FVal val), (lit ''updated_at'', FStr now)]\<rparr>"

text \<open>
  \<open>record['value'] if record else default\<close>: a missing record and an empty dict are both
  falsy; a non-empty record without the key \<open>'value'\<close> raises \<open>KeyError\<close>.
\<close>

definition recall_long ::
  "'v MemoryManager \<Rightarrow> pystr \<Rightarrow> pystr \<Rightarrow> 'v field
     \<Rightarrow> (error + 'v field) \<times> 'v MemoryManager" where
  "recall_long mm namespace key dflt =
     (case rs_get (relational mm) (lit ''long_term_memory'') (composite_key namespace key) of
        (rec, rel') \<Rightarrow>
          ((case rec of
              None \<Rightarrow> Inr dflt
            | Some r \<Rightarrow>
                if r = [] then Inr dflt
                else (case map_of r (lit ''value'') of
                        None \<Rightarrow> Inl KeyError
                      | Some f \<Rightarrow> Inr f)),
           mm\<lparr>relational := rel'\<rparr>))"

text \<open>
  Calls on the manager and directly on its relational store, and the record of table
  \<open>long_term_memory\<close> a call writes (inserts, replaces or deletes), if any.
\<close>

datatype 'v mm_op =
    RememberLong pystr pystr 'v pystr
  | RecallLong pystr pystr "'v field"
  | RsInsert pystr pystr "'v ltm_record"
  | RsGet pystr pystr
  | RsDelete pystr pystr

fun mm_step :: "'v MemoryManager \<Rightarrow> 'v mm_op \<Rightarrow> 'v MemoryManager" where
  "mm_step mm (RememberLong namespace key val now) = remember_long mm namespace key val now"
| "mm_step mm (RecallLong namespace key dflt) = snd (recall_long mm namespace key dflt)"
| "mm_step mm (RsInsert table record_id data) =
     mm\<lparr>relational := rs_insert (relational mm) table record_id data\<rparr>"
| "mm_step mm (RsGet table record_id) =
     mm\<lparr>relational := snd (rs_get (relational mm) table record_id)\<rparr>"
| "mm_step mm (RsDelete table record_id) =
     mm\<lparr>relational := snd (rs_delete (relational mm) table record_id)\<rparr>"

definition mm_run :: "'v MemoryManager \<Rightarrow> 'v mm_op list \<Rightarrow> 'v MemoryManager" where
  "mm_run mm ops = foldl mm_step mm ops"

fun writes_key :: "'v mm_op \<Rightarrow> pystr \<Rightarrow> bool" where
  "writes_key (RememberLong namespace key val now) ck = (composite_key namespace key = ck)"
| "writes_key (RecallLong namespace key dflt) ck = False"
| "writes_key (RsInsert table record_id data) ck =
     (table = lit ''long_term_memory'' \<and> record_id = ck)"
| "writes_key (RsGet table record_id) ck = False"
| "writes_key (RsDelete table record_id) ck =
     (table = lit ''long_term_memory'' \<and> record_id = ck)"

text \<open>Proof vocabulary: the record stored under an id of table \<open>long_term_memory\<close>.\<close>

definition ltm_lookup :: "'v MemoryManager \<Rightarrow> pystr \<Rightarrow> 'v ltm_record option" where
  "ltm_lookup mm ck =
     (case tables (relational mm) (lit ''long_term_memory'') of None \<Rightarrow> None | Some t \<Rightarrow> t ck)"

section \<open>LLMCore (provider-agnostic completion gateway)\<close>

text \<open>
  \<open>str.split()\<close> without arguments: the words between runs of whitespace, where
  whitespace is what \<open>str.isspace\<close> accepts (the code points below).
\<close>

definition is_space :: "nat \<Rightarrow> bool" where
  "is_space c =
     ((9 \<le> c \<and> c \<le> 13) \<or> (28 \<le> c \<and> c \<le> 32) \<or> c = 133 \<or> c = 160 \<or> c = 5760
      \<or> (8192 \<le> c \<and> c \<le> 8202) \<or> c = 8232 \<or> c = 8233 \<or> c = 8239 \<or> c = 8287
      \<or> c = 12288)"

fun split_ws :: "pystr \<Rightarrow> pystr \<Rightarrow> pystr list" where
  "split_ws cur [] = (if cur = [] then [] else [cur])"
| "split_ws cur (c # cs) =
     (if is_space c
      then (if cur = [] then split_ws [] cs else cur # split_ws [] cs)
      else split_ws (cur @ [c]) cs)"

definition py_split :: "pystr \<Rightarrow> pystr list" where
  "py_split s = split_ws [] s"

text \<open>
  A provider handler is a callable \<open>handler(prompt, **kwargs) -> str\<close> supplied by the
  caller. It may raise and may have effects: it is a function of the prompt, the keyword
  arguments and the state \<open>'w\<close> of whatever it acts on, returning its text or the exception
  it raised (of type \<open>'x\<close>) together with the new state.
\<close>

type_synonym ('k, 'w, 'x) handler = "pystr \<Rightarrow> 'k \<Rightarrow> 'w \<Rightarrow> ('x + pystr) \<times> 'w"

record ('k, 'w, 'x) LLMCore =
  providers :: "pystr \<rightharpoonup> ('k, 'w, 'x) handler"
  default_provider :: "pystr option"

definition LLMCore_init :: "('k, 'w, 'x) LLMCore" where
  "LLMCore_init = \<lparr>providers = Map.empty, default_provider = None\<rparr>"

definition register_provider ::
  "('k, 'w, 'x) LLMCore \<Rightarrow> pystr \<Rightarrow> ('k, 'w, 'x) handler \<Rightarrow> bool \<Rightarrow> ('k, 'w, 'x) LLMCore" where
  "register_provider st name handler set_default =
     (let st' = st\<lparr>providers := (providers st)(name \<mapsto> handler)\<rparr>
      in if set_default \<or> default_provider st' = None
         then st'\<lparr>default_provider := Some name\<rparr> else st')"

text \<open>
  Truthiness of an \<open>Optional[str]\<close> and the expression \<open>a or b\<close> on such values:
  \<open>None\<close> and the empty string are falsy.
\<close>

definition truthy :: "pystr option \<Rightarrow> bool" where
  "truthy a = (case a of None \<Rightarrow> False | Some s \<Rightarrow> s \<noteq> [])"

definition py_or :: "pystr option \<Rightarrow> pystr option \<Rightarrow> pystr option" where
  "py_or a b = (if truthy a then a else b)"

record completion =
  r_response :: pystr
  r_provider :: pystr
  r_prompt_tokens :: nat
  r_completion_tokens :: nat

text \<open>The f-string of the built-in mock.\<close>

definition mock_response :: "pystr \<Rightarrow> pystr" where
  "mock_response prompt =
     lit ''[mock response to: '' @ take 80 prompt
       @ (if 80 < length prompt then lit ''...'' else []) @ lit '']''"

definition completion_record :: "pystr \<Rightarrow> pystr \<Rightarrow> pystr \<Rightarrow> completion" where
  "completion_record prompt response_text chosen =
     \<lparr>r_response = response_text, r_provider = chosen,
      r_prompt_tokens = length (py_split prompt),
      r_completion_tokens = length (py_split response_text)\<rparr>"

text \<open>
  \<open>complete\<close> returns the record or the handler's exception, the state the handler left,
  and the gateway (which the method never assigns to).
\<close>

definition complete ::
  "('k, 'w, 'x) LLMCore \<Rightarrow> pystr \<Rightarrow> pystr option \<Rightarrow> 'k \<Rightarrow> 'w
     \<Rightarrow> ('x + completion) \<times> 'w \<times> ('k, 'w, 'x) LLMCore" where
  "complete st prompt provider kwargs w =
     (let chosen = py_or provider (default_provider st)
      in case (if truthy chosen then (case chosen of None \<Rightarrow> None
                                      | Some c \<Rightarrow> map_option (Pair c) (providers st c))
               else None) of
           Some (c, handler) \<Rightarrow>
             (case handler prompt kwargs w of
                (Inl exn, w') \<Rightarrow> (Inl exn, w', st)
              | (Inr response_text, w') \<Rightarrow>
                  (Inr (completion_record prompt response_text c), w', st))
         | None \<Rightarrow>
             (Inr (completion_record prompt (mock_response prompt) (lit ''mock'')), w, st))"

section \<open>EvaluationEngine (per-agent metric records and their averages)\<close>

definition EVALUATION_METRICS :: "pystr list" where
  "EVALUATION_METRICS =
     [lit ''hallucination_frequency'', lit ''context_relevance'', lit ''correctness'']"

text \<open>
  A record's \<open>scores\<close> is a dict from metric name to a float or \<open>None\<close>, in insertion
  order. Floats are modelled as reals: rounding is not modelled.
\<close>

type_synonym scores = "(pystr \<times> real option) list"

record eval_record =
  er_agent :: pystr
  er_timestamp :: pystr
  er_scores :: scores

record EvaluationEngine =
  ee_records :: "pystr \<rightharpoonup> eval_record list"

definition EvaluationEngine_init :: EvaluationEngine where
  "EvaluationEngine_init = \<lparr>ee_records = Map.empty\<rparr>"

text \<open>
  \<open>evaluate\<close> scores one response and appends the record to the agent's list. The two
  text heuristics \<open>_score_hallucination\<close> and \<open>_score_relevance\<close> are parameters here;
  the correctness score is \<open>1.0 if correct else (0.0 if correct is False else None)\<close>.
\<close>

definition evaluate ::
  "(pystr \<Rightarrow> real) \<Rightarrow> (pystr \<Rightarrow> pystr \<Rightarrow> real) \<Rightarrow> EvaluationEngine \<Rightarrow> pystr \<Rightarrow> pystr \<Rightarrow> pystr
     \<Rightarrow> bool option \<Rightarrow> pystr \<Rightarrow> eval_record \<times> EvaluationEngine" where
  "evaluate score_hallucination score_relevance ee agent_name prompt response correct now =
     (let scores =
            [(lit ''hallucination_frequency'', Some (score_hallucination response)),
             (lit ''context_relevance'', Some (score_relevance prompt response)),
             (lit ''correctness'',
                (case correct of Some True \<Rightarrow> Some 1 | Some False \<Rightarrow> Some 0 | None \<Rightarrow> None))];
          record = \<lparr>er_agent = agent_name, er_timestamp = now, er_scores = scores\<rparr>
      in (record,
          ee\<lparr>ee_records := (ee_records ee)(agent_name \<mapsto>
                (case ee_records ee agent_name of None \<Rightarrow> [] | Some rs \<Rightarrow> rs) @ [record])\<rparr>))"

text \<open>
  \<open>agg[metric].append(val)\<close> on the \<open>defaultdict(list)\<close>: a metric gets its key when its
  first value is appended.
\<close>

fun agg_append :: "(pystr \<times> real list) list \<Rightarrow> pystr \<Rightarrow> real \<Rightarrow> (pystr \<times> real list) list" where
  "agg_append [] metric v = [(metric, [v])]"
| "agg_append ((k, vals) # rest) metric v =
     (if k = metric then (k, vals @ [v]) # rest else (k, vals) # agg_append rest metric v)"

text \<open>The inner loop over \<open>r['scores'].items()\<close>, skipping \<open>None\<close>.\<close>

fun agg_scores :: "(pystr \<times> real list) list \<Rightarrow> scores \<Rightarrow> (pystr \<times> real list) list" where
  "agg_scores agg [] = agg"
| "agg_scores agg ((metric, val) # rest) =
     (case val of
        None \<Rightarrow> agg_scores agg rest
      | Some v \<Rightarrow> agg_scores (agg_append agg metric v) rest)"

fun agg_records :: "(pystr \<times> real list) list \<Rightarrow> eval_record list \<Rightarrow> (pystr \<times> real list) list" where
  "agg_records agg [] = agg"
| "agg_records agg (r # rs) = agg_records (agg_scores agg (er_scores r)) rs"

text \<open>
  \<open>aggregate\<close> returns a dict, in insertion order: looking a metric up with \<open>map_of\<close>
  gives \<open>None\<close> when the dict has no such key, \<open>Some None\<close> when the key maps to \<open>None\<close>.
\<close>

definition aggregate :: "EvaluationEngine \<Rightarrow> pystr \<Rightarrow> (pystr \<times> real option) list" where
  "aggregate ee agent_name =
     (let records = (case ee_records ee agent_name of None \<Rightarrow> [] | Some rs \<Rightarrow> rs)
      in if records = [] then map (\<lambda>m. (m, None)) EVALUATION_METRICS
         else map (\<lambda>(m, vals).
                     (m, if vals \<noteq> [] then Some (sum_list vals / real (length vals)) else None))
                  (agg_records [] records))"

section \<open>Sorting as Python does\<close>

text \<open>
  \<open>sorted(xs, key=f, reverse=True)\<close>: Python's sort is stable, and with \<open>reverse=True\<close>
  it reverses the list, sorts it stably in ascending order and reverses the result, so
  the result is in descending key order and elements with equal keys keep the order they
  had in \<open>xs\<close>. \<open>sort_key\<close> is a stable ascending sort.
\<close>

definition sorted_reverse :: "('a \<Rightarrow> 'k::linorder) \<Rightarrow> 'a list \<Rightarrow> 'a list" where
  "sorted_reverse f xs = rev (sort_key f (rev xs))"

section \<open>Scheduler (task queue)\<close>

record 'p task =
  t_task_id :: pystr
  t_agent_name :: pystr
  t_payload :: 'p
  t_priority :: int
  t_submitted_at :: pystr
  t_status :: pystr

text \<open>
  The queue is a \<open>deque\<close> without bound. The log of completed tasks is not read or
  written by \<open>submit\<close> and \<open>next_task\<close> and is left out.
\<close>

record 'p Scheduler =
  policy :: pystr
  queue :: "'p task list"

definition Scheduler_init :: "pystr \<Rightarrow> error + 'p Scheduler" where
  "Scheduler_init p =
     (if p \<notin> {lit ''fifo'', lit ''priority'', lit ''round_robin''} then Inl ValueError
      else Inr \<lparr>policy = p, queue = []\<rparr>)"

definition submit ::
  "'p Scheduler \<Rightarrow> pystr \<Rightarrow> pystr \<Rightarrow> 'p \<Rightarrow> int \<Rightarrow> pystr \<Rightarrow> 'p task \<times> 'p Scheduler" where
  "submit s task_id agent_name payload priority now =
     (let task = \<lparr>t_task_id = task_id, t_agent_name = agent_name, t_payload = payload,
                  t_priority = priority, t_submitted_at = now, t_status = lit ''queued''\<rparr>
      in (task, s\<lparr>queue := queue s @ [task]\<rparr>))"

text \<open>\<open>deque.popleft()\<close> raises \<open>IndexError\<close> on an empty deque.\<close>

definition popleft :: "'a list \<Rightarrow> error + ('a \<times> 'a list)" where
  "popleft q = (case q of [] \<Rightarrow> Inl IndexError | x # rest \<Rightarrow> Inr (x, rest))"

definition next_task :: "'p Scheduler \<Rightarrow> error + ('p task option \<times> 'p Scheduler)" where
  "next_task s =
     (if queue s = [] then Inr (None, s)
      else
        let s' = (if policy s = lit ''priority''
                  then s\<lparr>queue := sorted_reverse t_priority (queue s)\<rparr> else s)
        in case popleft (queue s') of
             Inl e \<Rightarrow> Inl e
           | Inr (t, rest) \<Rightarrow> Inr (Some t, s'\<lparr>queue := rest\<rparr>))"

text \<open>
  A sequence of calls on one scheduler and the values its \<open>next_task\<close> calls return, in
  call order.
\<close>

datatype 'p sched_op = Submit pystr pystr 'p int pystr | NextTask

fun sched_run ::
  "'p Scheduler \<Rightarrow> 'p sched_op list \<Rightarrow> error + ('p task option list \<times> 'p Scheduler)" where
  "sched_run s [] = Inr ([], s)"
| "sched_run s (Submit task_id agent_name payload priority now # ops) =
     sched_run (snd (submit s task_id agent_name payload priority now)) ops"
| "sched_run s (NextTask # ops) =
     (case next_task s of
        Inl e \<Rightarrow> Inl e
      | Inr (r, s') \<Rightarrow>
          (case sched_run s' ops of
             Inl e \<Rightarrow> Inl e
           | Inr (rs, s'') \<Rightarrow> Inr (r # rs, s'')))"

subsection \<open>The scheduling policies as the description words them\<close>

text \<open>
  The description's view of the scheduler: the tasks submitted and not yet returned, kept
  in submission order. Under \<open>priority\<close>, \<open>next\<close> takes the tasks of the highest priority
  value and returns the earliest submitted of them; under \<open>fifo\<close> it returns the earliest
  submitted task.
\<close>

definition spec_next_priority :: "'p task list \<Rightarrow> 'p task option \<times> 'p task list" where
  "spec_next_priority pending =
     (if pending = [] then (None, [])
      else
        (case find (\<lambda>t. t_priority t = Max (set (map t_priority pending))) pending of
           None \<Rightarrow> (None, pending)
         | Some t \<Rightarrow> (Some t, remove1 t pending)))"

definition spec_next_fifo :: "'p task list \<Rightarrow> 'p task option \<times> 'p task list" where
  "spec_next_fifo pending =
     (case pending of [] \<Rightarrow> (None, []) | t # rest \<Rightarrow> (Some t, rest))"

fun spec_run ::
  "('p task list \<Rightarrow> 'p task option \<times> 'p task list) \<Rightarrow> 'p task list \<Rightarrow> 'p sched_op list
     \<Rightarrow> 'p task option list" where
  "spec_run nxt pending [] = []"
| "spec_run nxt pending (Submit task_id agent_name payload priority now # ops) =
     spec_run nxt
       (pending @ [\<lparr>t_task_id = task_id, t_agent_name = agent_name, t_payload = payload,
                    t_priority = priority, t_submitted_at = now, t_status = lit ''queued''\<rparr>])
       ops"
| "spec_run nxt pending (NextTask # ops) =
     (case nxt pending of (r, pending') \<Rightarrow> r # spec_run nxt pending' ops)"

text \<open>
  Proof vocabulary: the queue holds the pending tasks with every priority class in
  submission order.
\<close>

definition same_classes :: "'p task list \<Rightarrow> 'p task list \<Rightarrow> bool" where
  "same_classes q pending =
     (\<forall>k. filter (\<lambda>t. t_priority t = k) q = filter (\<lambda>t. t_priority t = k) pending)"

section \<open>VectorStore (bag-of-words similarity index)\<close>






text \<open>
  \<open>f_zero\<close> and \<open>f_one\<close> are \<open>0.0\<close> and \<open>1.0\<close>, \<open>f_add\<close>, \<open>f_mul\<close> and \<open>f_div\<close> are
  \<open>+\<close>, \<open>*\<close> and \<open>/\<close>, \<open>f_sum\<close> is the builtin \<open>sum\<close> and \<open>f_pow_half x\<close> is \<open>x ** 0.5\<close>.

  A vector is a dict from token to float, in insertion order.
  \<open>counts[t] += 1.0\<close> on the \<open>defaultdict(float)\<close>:
\<close>

type_synonym 'f vec = "(pystr \<times> 'f) list"







type_synonym 'm metadata = "(pystr \<times> 'm) list"

record ('f, 'm) VectorStore =
  vs_records :: "(pystr \<times> (pystr \<times> 'f vec \<times> 'm metadata)) list"



definition vs_delete :: "('f, 'm) VectorStore \<Rightarrow> pystr \<Rightarrow> bool \<times> ('f, 'm) VectorStore" where
  "vs_delete st doc_id =
     (map_of (vs_records st) doc_id \<noteq> None,
      st\<lparr>vs_records := filter (\<lambda>e. fst e \<noteq> doc_id) (vs_records st)\<rparr>)"





text \<open>Proof vocabulary: the keys of the dict of documents are distinct.\<close>

definition vs_inv :: "('f, 'm) VectorStore \<Rightarrow> bool" where
  "vs_inv st = distinct (map fst (vs_records st))"

section \<open>ToolAccessManager: proofs\<close>

lemma roles_get_define_role:
  "roles_get (define_role st role tools) r =
     (if r = role then roles_get st role \<union> set tools else roles_get st r)"
  by (simp add: roles_get_def define_role_def)

lemma roles_get_assign_role [simp]: "roles_get (assign_role st p r) r' = roles_get st r'"
  by (simp add: roles_get_def assign_role_def)

lemma roles_get_check_access [simp]:
  "roles_get (snd (check_access st p t now)) r = roles_get st r"
  by (simp add: roles_get_def check_access_def Let_def)

lemma tam_step_grows: "roles_get st r \<subseteq> roles_get (tam_step st x) r"
  by (cases x) (auto simp: roles_get_define_role)

lemma tam_run_grows: "roles_get st r \<subseteq> roles_get (tam_run st ops) r"
  unfolding tam_run_def
proof (induction ops arbitrary: st)
  case Nil
  show ?case by simp
next
  case (Cons x xs)
  have "roles_get st r \<subseteq> roles_get (tam_step st x) r"
    by (rule tam_step_grows)
  also have "\<dots> \<subseteq> roles_get (foldl tam_step (tam_step st x) xs) r"
    by (rule Cons.IH)
  finally show ?case by simp
qed

text \<open>
  C9. Redefining a role is additive: after two \<open>define_role\<close> calls on the same role the
  permitted-tool set is the union of the tools granted before and the tools of both calls;
  this also holds when any other calls on the manager come between the two as far as
  removal is concerned: no operation ever removes a granted tool.
\<close>

theorem define_role_additive:
  "roles_get (define_role (define_role st role tools1) role tools2) role
     = roles_get st role \<union> set tools1 \<union> set tools2
   \<and> roles_get st role \<union> set tools1
       \<subseteq> roles_get (tam_run (define_role st role tools1) ops) role
   \<and> roles_get (define_role (tam_run (define_role st role tools1) ops) role tools2) role
       = roles_get (tam_run (define_role st role tools1) ops) role \<union> set tools2"
proof (intro conjI)
  show "roles_get (define_role (define_role st role tools1) role tools2) role
          = roles_get st role \<union> set tools1 \<union> set tools2"
    by (simp add: roles_get_define_role)
  have "roles_get (define_role st role tools1) role
          \<subseteq> roles_get (tam_run (define_role st role tools1) ops) role"
    by (rule tam_run_grows)
  then show "roles_get st role \<union> set tools1
          \<subseteq> roles_get (tam_run (define_role st role tools1) ops) role"
    by (simp add: roles_get_define_role)
  show "roles_get (define_role (tam_run (define_role st role tools1) ops) role tools2) role
          = roles_get (tam_run (define_role st role tools1) ops) role \<union> set tools2"
    by (simp add: roles_get_define_role)
qed

theorem define_role_additive_witness:
  "roles_get (define_role (define_role ToolAccessManager_init [1] [[10], [11]]) [1] [[11], [12]]) [1]
     = {[10], [11], [12]}"
  using define_role_additive [of ToolAccessManager_init "[1]" "[[10], [11]]" "[[11], [12]]" "[]"]
  by (auto simp: roles_get_def ToolAccessManager_init_def)

text \<open>
  C10. A call to \<open>check_access\<close> leaves the role definitions and the principal
  assignments as they were and appends exactly one entry to the audit log.
\<close>

theorem check_access_frame:
  "roles (snd (check_access st prin tool now)) = roles st
   \<and> principals (snd (check_access st prin tool now)) = principals st
   \<and> length (audit_log (snd (check_access st prin tool now))) = Suc (length (audit_log st))
   \<and> butlast (audit_log (snd (check_access st prin tool now))) = audit_log st"
  by (simp add: check_access_def Let_def)

theorem check_access_frame_witness:
  "roles (snd (check_access (assign_role (define_role ToolAccessManager_init [1] [[10]]) [2] [1])
        [2] [10] [0])) = roles (assign_role (define_role ToolAccessManager_init [1] [[10]]) [2] [1])
   \<and> length (audit_log (snd (check_access
        (assign_role (define_role ToolAccessManager_init [1] [[10]]) [2] [1]) [2] [10] [0]))) = 1"
  using check_access_frame
    [of "assign_role (define_role ToolAccessManager_init [1] [[10]]) [2] [1]" "[2]" "[10]" "[0]"]
  by (simp add: assign_role_def define_role_def ToolAccessManager_init_def)

text \<open>
  C6. Every \<open>check_access\<close> call returns a decision (the model has no error result, the
  body cannot raise) and appends exactly one audit entry recording that decision, also for
  a principal with no role; for such a principal the decision is always \<open>False\<close>, and
  \<open>permitted_tools\<close> returns nothing.
\<close>

theorem check_access_always_audits:
  "audit_log (snd (check_access st prin tool now))
     = audit_log st @ [\<lparr>ae_timestamp = now, ae_principal = prin, ae_tool = tool,
                        ae_role = principals st prin,
                        ae_allowed = fst (check_access st prin tool now)\<rparr>]
   \<and> (principals st prin = None \<longrightarrow>
        \<not> fst (check_access st prin tool now) \<and> permitted_tools st prin = [])"
  by (simp add: check_access_def permitted_tools_def Let_def)

theorem check_access_always_audits_witness:
  "principals (define_role ToolAccessManager_init [1] [[10]]) [7] = None
   \<and> \<not> fst (check_access (define_role ToolAccessManager_init [1] [[10]]) [7] [10] [0])
   \<and> permitted_tools (define_role ToolAccessManager_init [1] [[10]]) [7] = []
   \<and> length (audit_log (snd (check_access (define_role ToolAccessManager_init [1] [[10]])
         [7] [10] [0]))) = 1"
  using check_access_always_audits
    [of "define_role ToolAccessManager_init [1] [[10]]" "[7]" "[10]" "[0]"]
  by (simp add: define_role_def ToolAccessManager_init_def)

section \<open>Long-term memory: proofs\<close>

lemma ltm_lookup_remember_long:
  "ltm_lookup (remember_long mm ns k v now) ck =
     (if ck = composite_key ns k
      then Some [(lit ''namespace'', FStr ns), (lit ''key'', FStr k),
                 (lit ''value'', FVal v), (lit ''updated_at'', FStr now)]
      else ltm_lookup mm ck)"
  by (simp add: ltm_lookup_def remember_long_def rs_insert_def tables_getitem_def
      split: option.splits)

lemma fst_recall_long:
  "fst (recall_long mm ns k d) =
     (case ltm_lookup mm (composite_key ns k) of
        None \<Rightarrow> Inr d
      | Some r \<Rightarrow> if r = [] then Inr d
                  else (case map_of r (lit ''value'') of None \<Rightarrow> Inl KeyError | Some f \<Rightarrow> Inr f))"
  by (simp add: recall_long_def rs_get_def tables_getitem_def ltm_lookup_def
      split: option.splits)

lemma ltm_lookup_recall_long:
  "ltm_lookup (snd (recall_long mm ns k d)) ck = ltm_lookup mm ck"
  by (simp add: recall_long_def rs_get_def tables_getitem_def ltm_lookup_def
      split: option.splits)

lemma ltm_lookup_step:
  "\<not> writes_key x ck \<Longrightarrow> ltm_lookup (mm_step mm x) ck = ltm_lookup mm ck"
proof (cases x)
  case (RememberLong ns k v now)
  assume "\<not> writes_key x ck"
  with RememberLong show ?thesis by (simp add: ltm_lookup_remember_long)
next
  case (RecallLong ns k d)
  then show ?thesis by (simp add: ltm_lookup_recall_long)
next
  case (RsInsert t i r)
  assume "\<not> writes_key x ck"
  with RsInsert show ?thesis
    by (auto simp: ltm_lookup_def rs_insert_def tables_getitem_def split: option.splits)
next
  case (RsGet t i)
  then show ?thesis
    by (auto simp: ltm_lookup_def rs_get_def tables_getitem_def split: option.splits)
next
  case (RsDelete t i)
  assume "\<not> writes_key x ck"
  with RsDelete show ?thesis
    by (auto simp: ltm_lookup_def rs_delete_def tables_getitem_def split: option.splits)
qed

lemma ltm_lookup_run:
  "\<forall>x\<in>set ops. \<not> writes_key x ck \<Longrightarrow> ltm_lookup (mm_run mm ops) ck = ltm_lookup mm ck"
  unfolding mm_run_def
  by (induction ops arbitrary: mm) (simp_all add: ltm_lookup_step)

text \<open>
  C8. After \<open>remember_long(ns, k, v)\<close>, and any further calls on the manager or its record
  store that do not insert, replace or delete the record with the composite key
  \<open>ns::k\<close> of table \<open>long_term_memory\<close>, \<open>recall_long(ns, k)\<close> returns \<open>v\<close>.
\<close>

theorem long_term_round_trip:
  assumes "\<forall>x\<in>set ops. \<not> writes_key x (composite_key ns k)"
  shows "fst (recall_long (mm_run (remember_long mm ns k v now) ops) ns k d) = Inr (FVal v)"
proof -
  have "ltm_lookup (mm_run (remember_long mm ns k v now) ops) (composite_key ns k)
          = Some [(lit ''namespace'', FStr ns), (lit ''key'', FStr k),
                  (lit ''value'', FVal v), (lit ''updated_at'', FStr now)]"
    using assms by (simp add: ltm_lookup_run ltm_lookup_remember_long)
  then show ?thesis
    by (simp add: fst_recall_long lit_def)
qed

theorem long_term_round_trip_witness:
  "fst (recall_long (mm_run (remember_long \<lparr>relational = RelationalStore_init\<rparr> (lit ''ns'') (lit ''k'') (42::nat) (lit ''t0''))
        [RememberLong (lit ''ns'') (lit ''other'') 7 (lit ''t1''), RsDelete (lit ''users'') (lit ''ns::k'')])
        (lit ''ns'') (lit ''k'') (FStr [])) = Inr (FVal 42)"
  using long_term_round_trip [of "[RememberLong (lit ''ns'') (lit ''other'') 7 (lit ''t1''), RsDelete (lit ''users'') (lit ''ns::k'')]"
     "lit ''ns''" "lit ''k''" "\<lparr>relational = RelationalStore_init\<rparr>" "42::nat" "lit ''t0''" "FStr []"]
  by (simp add: composite_key_def lit_def)

section \<open>ContextManager: proofs\<close>

lemma length_lastn: "length (lastn n xs) = min n (length xs)"
  by (simp add: lastn_def)

lemma lastn_append_lastn: "lastn n (lastn n xs @ ys) = lastn n (xs @ ys)"
proof (cases "length xs \<le> n")
  case True
  then show ?thesis by (simp add: lastn_def)
next
  case False
  then have "length xs + length ys - (length xs - n + n) + (length xs - n)
               = length xs + length ys - n"
    by simp
  then show ?thesis by (simp add: lastn_def)
qed

lemma lastn_lastn: "lastn n (lastn n xs) = lastn n xs"
  using lastn_append_lastn [of n xs "[]"] by simp

lemma lastn_Nil: "lastn n [] = []"
  by (simp add: lastn_def)

lemma lastn_fits: "length xs \<le> n \<Longrightarrow> lastn n xs = xs"
  by (simp add: lastn_def)

lemma items_deque_append:
  assumes "length (items d) \<le> maxlen d"
  shows "items (deque_append d x) = lastn (maxlen d) (items d @ [x])"
proof (cases "maxlen d < length (items d @ [x])")
  case True
  with assms have len: "length (items d) = maxlen d" by simp
  have "tl ys = drop 1 ys" for ys :: "'a list"
    by (cases ys) simp_all
  then have "tl (items d @ [x]) = drop 1 (items d @ [x])" .
  with True len show ?thesis
    by (simp add: deque_append_def lastn_def Let_def)
next
  case False
  then show ?thesis
    by (simp add: deque_append_def lastn_def Let_def)
qed

lemma maxlen_deque_append [simp]: "maxlen (deque_append d x) = maxlen d"
  by (simp add: deque_append_def Let_def)

lemma cm_inv_init: "cm_inv (ContextManager_init w)"
  by (simp add: cm_inv_def ContextManager_init_def)

lemma sessions_getitem_Inr:
  assumes "sessions_getitem cm sid = Inr (d, cm')" and "cm_inv cm"
  shows "cm_inv cm'" and "window_size cm' = window_size cm" and "sessions cm' sid = Some d"
    and "items d = session_items cm sid"
    and "\<forall>s. s \<noteq> sid \<longrightarrow> sessions cm' s = sessions cm s"
    and "0 \<le> window_size cm" and "window_size cm < 2 ^ 63"
    and "maxlen d = nat (window_size cm)"
    and "length (items d) \<le> maxlen d"
  using assms
  by (auto simp: sessions_getitem_def deque_new_def cm_inv_def session_items_def
      split: option.splits if_splits)

lemma cm_inv_update:
  assumes "cm_inv cm1" and "window_size cm1 = w" and "0 \<le> w" and "w < 2 ^ 63"
    and "maxlen d' = nat w" and "length (items d') \<le> nat w"
  shows "cm_inv (cm1\<lparr>sessions := (sessions cm1)(sid \<mapsto> d')\<rparr>)"
  using assms unfolding cm_inv_def by simp

lemma cm_invD:
  "cm_inv cm \<Longrightarrow> sessions cm sid = Some d \<Longrightarrow>
     0 \<le> window_size cm \<and> window_size cm < 2 ^ 63 \<and> maxlen d = nat (window_size cm)
     \<and> length (items d) \<le> nat (window_size cm)"
  unfolding cm_inv_def by blast

lemma cm_inv_length: "cm_inv cm \<Longrightarrow> length (session_items cm sid) \<le> nat (window_size cm)"
  by (cases "sessions cm sid") (auto simp: session_items_def dest: cm_invD)

lemma sessions_getitem_total:
  "0 \<le> window_size cm \<Longrightarrow> window_size cm < 2 ^ 63 \<Longrightarrow>
     \<exists>d cm'. sessions_getitem cm sid = Inr (d, cm')"
  by (simp add: sessions_getitem_def deque_new_def split: option.splits)

lemma sessions_getitem_Inl:
  "sessions_getitem cm sid = Inl e \<Longrightarrow> window_size cm < 0 \<or> 2 ^ 63 \<le> window_size cm"
  by (auto simp: sessions_getitem_def deque_new_def split: option.splits if_splits)

text \<open>
  What one successful call does to every session: it creates the session it names, and
  leaves in each session the last \<open>window_size\<close> of the entries the call leaves for it.
\<close>

lemma cm_step_Inr:
  assumes step: "cm_step cm x = Inr cm'" and inv: "cm_inv cm"
  shows "cm_inv cm'" and "window_size cm' = window_size cm"
    and "0 \<le> window_size cm" and "window_size cm < 2 ^ 63"
    and "\<forall>s. (sessions cm' s = None) = (sessions cm s = None \<and> s \<noteq> session_of x)"
    and "\<forall>s. session_items cm' s
            = lastn (nat (window_size cm)) (pushed_since_clear (session_items cm s) s [x])"
proof -
  have keep: "lastn (nat (window_size cm)) (session_items cm s) = session_items cm s" for s
    using cm_inv_length [OF inv] by (simp add: lastn_fits)
  obtain sid where sid: "session_of x = sid" by simp
  from step obtain d cm1 where g: "sessions_getitem cm sid = Inr (d, cm1)"
    using sid by (cases x) (auto simp: push_def get_context_def clear_def split: sum.splits)
  note h = sessions_getitem_Inr [OF g inv]
  from h(6,7) show "0 \<le> window_size cm" and "window_size cm < 2 ^ 63" .
  have ex1: "(sessions cm1 s = None) = (sessions cm s = None \<and> s \<noteq> sid)" for s
  proof (cases "s = sid")
    case True
    with h(3) show ?thesis by simp
  next
    case False
    with h(5) show ?thesis by simp
  qed
  have res: "cm_inv cm' \<and> window_size cm' = window_size cm
      \<and> (\<forall>s. (sessions cm' s = None) = (sessions cm s = None \<and> s \<noteq> session_of x))
      \<and> (\<forall>s. session_items cm' s
            = lastn (nat (window_size cm)) (pushed_since_clear (session_items cm s) s [x]))"
  proof (cases x)
    case (Push sid' r c t)
    with sid have [simp]: "sid' = sid" by simp
    let ?e = "\<lparr>ce_role = r, ce_content = c, ce_timestamp = t\<rparr>"
    from step Push g have cm': "cm' = cm1\<lparr>sessions := (sessions cm1)(sid \<mapsto> deque_append d ?e)\<rparr>"
      by (simp add: push_def)
    have it: "items (deque_append d ?e) = lastn (nat (window_size cm)) (session_items cm sid @ [?e])"
      using h(4,8,9) by (simp add: items_deque_append)
    then have "length (items (deque_append d ?e)) \<le> nat (window_size cm)"
      by (simp add: length_lastn)
    with h cm' have "cm_inv cm'"
      by (simp add: cm_inv_update)
    moreover from h(2) cm' have "window_size cm' = window_size cm" by simp
    moreover from ex1 cm' Push
    have "\<forall>s. (sessions cm' s = None) = (sessions cm s = None \<and> s \<noteq> session_of x)"
      by simp
    moreover have "session_items cm' s
            = lastn (nat (window_size cm)) (pushed_since_clear (session_items cm s) s [x])" for s
    proof (cases "s = sid")
      case True
      with cm' it Push show ?thesis by (simp add: session_items_def)
    next
      case False
      with cm' h(5) Push keep [of s] show ?thesis by (simp add: session_items_def)
    qed
    ultimately show ?thesis by blast
  next
    case (GetContext sid')
    with sid have [simp]: "sid' = sid" by simp
    from step GetContext g have cm': "cm' = cm1"
      by (simp add: get_context_def)
    from ex1 cm' GetContext
    have "\<forall>s. (sessions cm' s = None) = (sessions cm s = None \<and> s \<noteq> session_of x)"
      by simp
    moreover have "session_items cm' s
            = lastn (nat (window_size cm)) (pushed_since_clear (session_items cm s) s [x])" for s
    proof (cases "s = sid")
      case True
      with cm' h(3,4) GetContext keep [of s] show ?thesis by (simp add: session_items_def)
    next
      case False
      with cm' h(5) GetContext keep [of s] show ?thesis by (simp add: session_items_def)
    qed
    ultimately show ?thesis using h(1,2) cm' by blast
  next
    case (Clear sid')
    with sid have [simp]: "sid' = sid" by simp
    from step Clear g have cm': "cm' = cm1\<lparr>sessions := (sessions cm1)(sid \<mapsto> d\<lparr>items := []\<rparr>)\<rparr>"
      by (simp add: clear_def)
    from h cm' have "cm_inv cm'"
      by (simp add: cm_inv_update)
    moreover from h(2) cm' have "window_size cm' = window_size cm" by simp
    moreover from ex1 cm' Clear
    have "\<forall>s. (sessions cm' s = None) = (sessions cm s = None \<and> s \<noteq> session_of x)"
      by simp
    moreover have "session_items cm' s
            = lastn (nat (window_size cm)) (pushed_since_clear (session_items cm s) s [x])" for s
    proof (cases "s = sid")
      case True
      with cm' Clear show ?thesis by (simp add: session_items_def lastn_Nil)
    next
      case False
      with cm' h(5) Clear keep [of s] show ?thesis by (simp add: session_items_def)
    qed
    ultimately show ?thesis by blast
  qed
  from res show "cm_inv cm'" and "window_size cm' = window_size cm"
    and "\<forall>s. (sessions cm' s = None) = (sessions cm s = None \<and> s \<noteq> session_of x)"
    and "\<forall>s. session_items cm' s
            = lastn (nat (window_size cm)) (pushed_since_clear (session_items cm s) s [x])"
    by blast+
qed

lemma cm_step_Inl:
  "cm_step cm x = Inl e \<Longrightarrow> window_size cm < 0 \<or> 2 ^ 63 \<le> window_size cm"
  by (cases x)
     (auto simp: push_def get_context_def clear_def dest: sessions_getitem_Inl split: sum.splits)

lemma pushed_since_clear_step:
  "pushed_since_clear acc sid (x # xs) = pushed_since_clear (pushed_since_clear acc sid [x]) sid xs"
  by (cases x) simp_all

lemma lastn_pushed_since_clear:
  "lastn n (pushed_since_clear (lastn n acc) sid xs) = lastn n (pushed_since_clear acc sid xs)"
proof (induction xs arbitrary: acc)
  case Nil
  show ?case by (simp add: lastn_lastn)
next
  case (Cons x xs)
  show ?case
  proof (cases x)
    case (Push s r c t)
    let ?e = "\<lparr>ce_role = r, ce_content = c, ce_timestamp = t\<rparr>"
    show ?thesis
    proof (cases "s = sid")
      case True
      have "lastn n (pushed_since_clear (lastn n acc @ [?e]) sid xs)
              = lastn n (pushed_since_clear (lastn n (lastn n acc @ [?e])) sid xs)"
        by (simp add: Cons.IH)
      also have "\<dots> = lastn n (pushed_since_clear (lastn n (acc @ [?e])) sid xs)"
        by (simp add: lastn_append_lastn)
      also have "\<dots> = lastn n (pushed_since_clear (acc @ [?e]) sid xs)"
        by (simp add: Cons.IH)
      finally show ?thesis using Push True by simp
    next
      case False
      with Push Cons.IH show ?thesis by simp
    qed
  next
    case (GetContext s)
    with Cons.IH show ?thesis by simp
  next
    case (Clear s)
    with Cons.IH show ?thesis by simp
  qed
qed

lemma cm_run_Inr:
  "cm_run cm ops = Inr cm' \<Longrightarrow> cm_inv cm \<Longrightarrow>
     cm_inv cm' \<and> window_size cm' = window_size cm
     \<and> (ops = [] \<or> (0 \<le> window_size cm \<and> window_size cm < 2 ^ 63))
     \<and> (\<forall>s. (sessions cm' s = None) = (sessions cm s = None \<and> s \<notin> session_of ` set ops))
     \<and> (\<forall>s. session_items cm' s
            = lastn (nat (window_size cm)) (pushed_since_clear (session_items cm s) s ops))"
proof (induction ops arbitrary: cm)
  case Nil
  then show ?case
    using cm_inv_length [of cm] by (simp add: lastn_fits)
next
  case (Cons x xs)
  from Cons.prems(1) obtain cm1 where s: "cm_step cm x = Inr cm1" and r: "cm_run cm1 xs = Inr cm'"
    by (auto split: sum.splits)
  note st = cm_step_Inr [OF s Cons.prems(2)]
  note ih = Cons.IH [OF r st(1)]
  have "session_items cm' s
          = lastn (nat (window_size cm)) (pushed_since_clear (session_items cm s) s (x # xs))" for s
  proof -
    from ih st(2) have "session_items cm' s
          = lastn (nat (window_size cm)) (pushed_since_clear (session_items cm1 s) s xs)"
      by simp
    also from st(6) have "\<dots> = lastn (nat (window_size cm))
          (pushed_since_clear
             (lastn (nat (window_size cm)) (pushed_since_clear (session_items cm s) s [x])) s xs)"
      by simp
    also have "\<dots> = lastn (nat (window_size cm))
          (pushed_since_clear (pushed_since_clear (session_items cm s) s [x]) s xs)"
      by (rule lastn_pushed_since_clear)
    also have "\<dots> = lastn (nat (window_size cm))
          (pushed_since_clear (session_items cm s) s (x # xs))"
      by (simp add: pushed_since_clear_step [of _ s x xs])
    finally show ?thesis .
  qed
  moreover from ih st(5)
  have "\<forall>s. (sessions cm' s = None) = (sessions cm s = None \<and> s \<notin> session_of ` set (x # xs))"
    by auto
  ultimately show ?case using ih st(2,3,4) by simp
qed

lemma cm_run_Inl:
  "cm_run cm ops = Inl e \<Longrightarrow> cm_inv cm \<Longrightarrow>
     ops \<noteq> [] \<and> (window_size cm < 0 \<or> 2 ^ 63 \<le> window_size cm)"
proof (induction ops arbitrary: cm)
  case Nil
  then show ?case by simp
next
  case (Cons x xs)
  show ?case
  proof (cases "cm_step cm x")
    case (Inl e')
    then show ?thesis using cm_step_Inl by blast
  next
    case (Inr cm1)
    with Cons.prems have r: "cm_run cm1 xs = Inl e" by simp
    from cm_step_Inr(1,2) [OF Inr Cons.prems(2)] Cons.IH [OF r] show ?thesis by simp
  qed
qed

text \<open>
  C1. A manager constructed with window size \<open>W\<close> and driven by any sequence of
  \<open>push\<close>, \<open>get_context\<close> and \<open>clear\<close> calls. A call raises exactly when \<open>W\<close> is not a
  valid deque bound (negative, or 2^63 and more), and then no session is ever created.
  Otherwise, after the sequence (hence after each of its prefixes) the sessions that
  exist are exactly those the calls named, every push having created or extended its
  session; each session holds at most \<open>W\<close> entries, and these are the last \<open>W\<close> of the
  entries pushed to it since it was last cleared, oldest first (FIFO eviction). With
  \<open>W = 3\<close>, four pushes to a session leave the second, third and fourth entry, in this
  order, as \<open>get_context\<close> returns them.
\<close>

theorem context_window_bounded_fifo:
  "(case cm_run (ContextManager_init W) ops of
      Inl e \<Rightarrow> ops \<noteq> [] \<and> (W < 0 \<or> 2 ^ 63 \<le> W)
    | Inr cm \<Rightarrow>
        (ops = [] \<or> (0 \<le> W \<and> W < 2 ^ 63))
        \<and> window_size cm = W
        \<and> (\<forall>sid. case sessions cm sid of
                    None \<Rightarrow> sid \<notin> session_of ` set ops
                  | Some d \<Rightarrow>
                      sid \<in> session_of ` set ops
                      \<and> maxlen d = nat W
                      \<and> int (length (items d)) \<le> W
                      \<and> items d = lastn (nat W) (pushed_since_clear [] sid ops)))
   \<and> (case cm_run (ContextManager_init 3)
              [Push s r1 c1 t1, Push s r2 c2 t2, Push s r3 c3 t3, Push s r4 c4 t4] of
        Inl e \<Rightarrow> False
      | Inr cm \<Rightarrow>
          map_sum id fst (get_context cm s) =
            Inr [\<lparr>ce_role = r2, ce_content = c2, ce_timestamp = t2\<rparr>,
                 \<lparr>ce_role = r3, ce_content = c3, ce_timestamp = t3\<rparr>,
                 \<lparr>ce_role = r4, ce_content = c4, ce_timestamp = t4\<rparr>])"
proof (rule conjI)
  show "case cm_run (ContextManager_init W) ops of
      Inl e \<Rightarrow> ops \<noteq> [] \<and> (W < 0 \<or> 2 ^ 63 \<le> W)
    | Inr cm \<Rightarrow>
        (ops = [] \<or> (0 \<le> W \<and> W < 2 ^ 63))
        \<and> window_size cm = W
        \<and> (\<forall>sid. case sessions cm sid of
                    None \<Rightarrow> sid \<notin> session_of ` set ops
                  | Some d \<Rightarrow>
                      sid \<in> session_of ` set ops
                      \<and> maxlen d = nat W
                      \<and> int (length (items d)) \<le> W
                      \<and> items d = lastn (nat W) (pushed_since_clear [] sid ops))"
  proof (cases "cm_run (ContextManager_init W) ops")
    case (Inl e)
    from cm_run_Inl [OF Inl cm_inv_init] Inl show ?thesis
      by (simp add: ContextManager_init_def)
  next
    case (Inr cm)
    from cm_run_Inr [OF Inr cm_inv_init]
    have inv: "cm_inv cm" and w: "window_size cm = W"
      and rng: "ops = [] \<or> (0 \<le> W \<and> W < 2 ^ 63)"
      and ex: "\<And>s. (sessions cm s = None) = (s \<notin> session_of ` set ops)"
      and it: "\<And>s. session_items cm s = lastn (nat W) (pushed_since_clear [] s ops)"
      by (simp_all add: ContextManager_init_def session_items_def)
    have "case sessions cm sid of
            None \<Rightarrow> sid \<notin> session_of ` set ops
          | Some d \<Rightarrow>
              sid \<in> session_of ` set ops
              \<and> maxlen d = nat W
              \<and> int (length (items d)) \<le> W
              \<and> items d = lastn (nat W) (pushed_since_clear [] sid ops)" for sid
    proof (cases "sessions cm sid")
      case None
      with ex [of sid] show ?thesis by simp
    next
      case (Some d)
      from cm_invD [OF inv Some] w have "maxlen d = nat W" by simp
      moreover from cm_invD [OF inv Some] w have "int (length (items d)) \<le> W" by linarith
      moreover from ex [of sid] Some have "sid \<in> session_of ` set ops" by simp
      moreover from it [of sid] Some have "items d = lastn (nat W) (pushed_since_clear [] sid ops)"
        by (simp add: session_items_def)
      ultimately show ?thesis using Some by simp
    qed
    with Inr w rng show ?thesis by simp
  qed
  show "case cm_run (ContextManager_init 3)
              [Push s r1 c1 t1, Push s r2 c2 t2, Push s r3 c3 t3, Push s r4 c4 t4] of
        Inl e \<Rightarrow> False
      | Inr cm \<Rightarrow>
          map_sum id fst (get_context cm s) =
            Inr [\<lparr>ce_role = r2, ce_content = c2, ce_timestamp = t2\<rparr>,
                 \<lparr>ce_role = r3, ce_content = c3, ce_timestamp = t3\<rparr>,
                 \<lparr>ce_role = r4, ce_content = c4, ce_timestamp = t4\<rparr>]"
    by (simp add: ContextManager_init_def push_def sessions_getitem_def deque_new_def
        deque_append_def get_context_def Let_def)
qed

text \<open>
  Window size 2; session 1 is pushed to, cleared and pushed to three more times, with a
  push to session 9 in between.
\<close>

theorem context_window_bounded_fifo_witness:
  "\<exists>cm d. cm_run (ContextManager_init 2)
            [Push [1] [2] [3] [4], Clear [1], Push [1] [0] [0] [0], Push [9] [2] [3] [4],
             Push [1] [5] [6] [7], Push [1] [8] [9] [10]]
          = Inr cm
     \<and> sessions cm [1] = Some d
     \<and> sessions cm [9] \<noteq> None
     \<and> sessions cm [7] = None
     \<and> length (items d) = 2
     \<and> items d = [\<lparr>ce_role = [5], ce_content = [6], ce_timestamp = [7]\<rparr>,
                  \<lparr>ce_role = [8], ce_content = [9], ce_timestamp = [10]\<rparr>]"
  using context_window_bounded_fifo [where W = 2 and s = "[1]" and ops =
     "[Push [1] [2] [3] [4], Clear [1], Push [1] [0] [0] [0], Push [9] [2] [3] [4],
       Push [1] [5] [6] [7], Push [1] [8] [9] [10]]"]
  by (simp add: ContextManager_init_def push_def clear_def sessions_getitem_def deque_new_def
        deque_append_def get_context_def Let_def)

section \<open>LLMCore: proofs\<close>

lemma complete_handler:
  assumes "py_or provider (default_provider st) = Some name" and "name \<noteq> []"
    and "providers st name = Some h"
  shows "complete st prompt provider kwargs w =
           (case h prompt kwargs w of
              (Inl exn, w') \<Rightarrow> (Inl exn, w', st)
            | (Inr text, w') \<Rightarrow> (Inr (completion_record prompt text name), w', st))"
  using assms by (simp add: complete_def truthy_def)

text \<open>
  C5. When the request resolves to a registered provider and its handler raises, \<open>complete\<close>
  returns that exception as it is, the handler has been called once (the state is the one
  its single call left), no mock response is produced, and the gateway is unchanged.
\<close>

theorem provider_failure_propagates:
  assumes "py_or provider (default_provider st) = Some name" and "name \<noteq> []"
    and "providers st name = Some h"
    and "h prompt kwargs w = (Inl exn, w')"
  shows "complete st prompt provider kwargs w = (Inl exn, w', st)"
  using complete_handler [OF assms(1-3), of prompt kwargs w] assms(4) by simp

text \<open>A handler that always raises and counts its calls in the state it acts on.\<close>

theorem provider_failure_propagates_witness:
  "complete (register_provider LLMCore_init (lit ''down'') (\<lambda>p k n. (Inl (lit ''outage''), Suc n)) False)
      (lit ''hello'') (Some (lit ''down'')) () (0::nat)
    = (Inl (lit ''outage''), 1,
       register_provider LLMCore_init (lit ''down'') (\<lambda>p k n. (Inl (lit ''outage''), Suc n)) False)"
  using provider_failure_propagates
    [of "Some (lit ''down'')"
        "register_provider LLMCore_init (lit ''down'') (\<lambda>p k n. (Inl (lit ''outage''), Suc n)) False"
        "lit ''down''" "\<lambda>p k n. (Inl (lit ''outage''), Suc n)" "lit ''hello''" "()" "0::nat"
        "lit ''outage''" "1::nat"]
  by (simp add: py_or_def truthy_def register_provider_def LLMCore_init_def lit_def Let_def)


text \<open>
  C4. A gateway with the one provider \<open>a\<close>, which is therefore the default. A request that
  names the unregistered provider \<open>b\<close> is answered by the built-in mock under the name
  \<open>mock\<close>, although the default provider is registered and answers the same prompt when
  no provider is named: the fall-back from the requested provider to the default is skipped.
\<close>

theorem complete_skips_registered_default:
  "fst (complete
          (register_provider LLMCore_init (lit ''a'')
             (\<lambda>p k w. (Inr (lit ''from a'') :: unit + pystr, w :: unit)) False)
          (lit ''hi'') (Some (lit ''b'')) () ())
     = Inr \<lparr>r_response = lit ''[mock response to: hi]'', r_provider = lit ''mock'',
            r_prompt_tokens = 1, r_completion_tokens = 4\<rparr>
   \<and> default_provider
         (register_provider LLMCore_init (lit ''a'')
            (\<lambda>p k w. (Inr (lit ''from a'') :: unit + pystr, w :: unit)) False) = Some (lit ''a'')
   \<and> fst (complete
          (register_provider LLMCore_init (lit ''a'')
             (\<lambda>p k w. (Inr (lit ''from a'') :: unit + pystr, w :: unit)) False)
          (lit ''hi'') None () ())
     = Inr \<lparr>r_response = lit ''from a'', r_provider = lit ''a'',
            r_prompt_tokens = 1, r_completion_tokens = 2\<rparr>"
  by (simp add: complete_def py_or_def truthy_def register_provider_def LLMCore_init_def
      completion_record_def mock_response_def py_split_def is_space_def lit_def Let_def)

section \<open>EvaluationEngine: evaluation at the diverging input\<close>

text \<open>
  C3. One evaluation recorded without a ground-truth label: the averages that
  \<open>aggregate\<close> returns have no \<open>correctness\<close> key at all (the lookup finds nothing),
  where the engine with no record for the agent maps every metric to \<open>None\<close>.
\<close>

theorem aggregate_unlabelled_drops_correctness:
  "aggregate (snd (evaluate sh sr EvaluationEngine_init (lit ''a'') (lit ''p'') (lit ''r'') None now))
      (lit ''a'')
     = [(lit ''hallucination_frequency'', Some (sh (lit ''r''))),
        (lit ''context_relevance'', Some (sr (lit ''p'') (lit ''r'')))]
   \<and> map_of (aggregate
         (snd (evaluate sh sr EvaluationEngine_init (lit ''a'') (lit ''p'') (lit ''r'') None now))
         (lit ''a'')) (lit ''correctness'') = None
   \<and> map_of (aggregate EvaluationEngine_init (lit ''a'')) (lit ''correctness'') = Some None"
  by (simp add: aggregate_def evaluate_def EvaluationEngine_init_def EVALUATION_METRICS_def
      lit_def Let_def)

section \<open>Sorting: proofs\<close>

lemma set_sorted_reverse [simp]: "set (sorted_reverse f xs) = set xs"
  by (simp add: sorted_reverse_def)

lemma length_sorted_reverse [simp]: "length (sorted_reverse f xs) = length xs"
  by (simp add: sorted_reverse_def)

lemma sorted_reverse_Nil_iff [simp]: "sorted_reverse f xs = [] \<longleftrightarrow> xs = []"
  using length_sorted_reverse [of f xs] by (metis length_0_conv)

lemma sorted_reverse_stable:
  "filter (\<lambda>x. f x = k) (sorted_reverse f xs) = filter (\<lambda>x. f x = k) xs"
proof -
  have "filter (\<lambda>x. f x = k) (sorted_reverse f xs)
          = rev (filter (\<lambda>x. f x = k) (sort_key f (rev xs)))"
    by (simp add: sorted_reverse_def rev_filter)
  also have "\<dots> = rev (filter (\<lambda>x. f x = k) (rev xs))"
    by (simp add: sort_key_stable)
  also have "\<dots> = filter (\<lambda>x. f x = k) xs"
    by (simp add: rev_filter)
  finally show ?thesis .
qed

lemma sorted_reverse_descending: "sorted (rev (map f (sorted_reverse f xs)))"
  by (simp add: sorted_reverse_def rev_map)

lemma sorted_reverse_head_max:
  assumes "sorted_reverse f xs = y # ys" and "x \<in> set xs"
  shows "f x \<le> f y"
proof -
  from sorted_reverse_descending [of f xs] assms(1)
  have "sorted (rev (map f ys) @ [f y])" by simp
  then have "\<forall>a\<in>set (rev (map f ys)). a \<le> f y"
    by (simp add: sorted_append)
  moreover from assms have "x = y \<or> x \<in> set ys"
    by (metis set_ConsD set_sorted_reverse)
  ultimately show ?thesis by auto
qed

lemma sorted_reverse_head_first:
  assumes "sorted_reverse f xs = y # ys"
  shows "find (\<lambda>x. f x = f y) xs = Some y"
proof -
  have "filter (\<lambda>x. f x = f y) xs = filter (\<lambda>x. f x = f y) (y # ys)"
    using sorted_reverse_stable [of f "f y" xs] assms by simp
  then have "filter (\<lambda>x. f x = f y) xs = y # filter (\<lambda>x. f x = f y) ys"
    by simp
  then show ?thesis
    by (induction xs) (auto split: if_splits)
qed

lemma sorted_reverse_tail:
  assumes "sorted_reverse f xs = y # ys"
  shows "filter (\<lambda>x. f x = k) ys =
           (if k = f y then tl (filter (\<lambda>x. f x = k) xs) else filter (\<lambda>x. f x = k) xs)"
proof -
  have "filter (\<lambda>x. f x = k) xs = filter (\<lambda>x. f x = k) (y # ys)"
    using sorted_reverse_stable [of f k xs] assms by simp
  then show ?thesis by (cases "k = f y") simp_all
qed

section \<open>Scheduler: proofs\<close>

lemma same_classes_set:
  assumes "same_classes q p"
  shows "set q = set p"
proof -
  have "x \<in> set xs \<longleftrightarrow> x \<in> set (filter (\<lambda>t. t_priority t = t_priority x) xs)"
    for x :: "'a task" and xs
    by simp
  with assms show ?thesis
    unfolding same_classes_def by (metis subsetI subset_antisym)
qed

lemma same_classes_Nil: "same_classes q p \<Longrightarrow> q = [] \<longleftrightarrow> p = []"
  using same_classes_set [of q p] by (metis set_empty)

lemma same_classes_append:
  "same_classes q p \<Longrightarrow> same_classes (q @ [t]) (p @ [t])"
  by (simp add: same_classes_def)

lemma find_filter_hd:
  "find P xs = Some t \<Longrightarrow> filter P xs = t # tl (filter P xs)"
  by (induction xs) (auto split: if_splits)

lemma filter_remove1_first:
  assumes "find P xs = Some t"
  shows "filter P (remove1 t xs) = tl (filter P xs)"
proof -
  have "filter P (remove1 t xs) = remove1 t (filter P xs)"
    by (simp add: filter_remove1)
  also have "\<dots> = remove1 t (t # tl (filter P xs))"
    using find_filter_hd [OF assms] by simp
  finally show ?thesis by simp
qed

lemma filter_remove1_other:
  assumes "\<not> Q t"
  shows "filter Q (remove1 t xs) = filter Q xs"
proof -
  have "filter Q (remove1 t xs) = remove1 t (filter Q xs)"
    by (simp add: filter_remove1)
  moreover from assms have "t \<notin> set (filter Q xs)" by simp
  ultimately show ?thesis by (simp add: remove1_idem)
qed

lemma find_cong_filter:
  "filter P xs = filter P ys \<Longrightarrow> find P xs = find P ys"
proof -
  have "find P zs = (case filter P zs of [] \<Rightarrow> None | z # _ \<Rightarrow> Some z)" for zs :: "'a list"
    by (induction zs) auto
  then show "filter P xs = filter P ys \<Longrightarrow> find P xs = find P ys" by simp
qed

text \<open>One \<open>next_task\<close> call under the priority policy against the description's step.\<close>

lemma next_task_priority_step:
  assumes pol: "policy s = lit ''priority''" and rel: "same_classes (queue s) p"
  shows "\<exists>s'. next_task s = Inr (fst (spec_next_priority p), s')
              \<and> policy s' = policy s \<and> same_classes (queue s') (snd (spec_next_priority p))"
proof (cases "queue s = []")
  case True
  with same_classes_Nil [OF rel] have "p = []" by simp
  with True rel show ?thesis
    by (simp add: next_task_def spec_next_priority_def)
next
  case False
  with same_classes_Nil [OF rel] have p: "p \<noteq> []" by simp
  from False obtain t rest where srt: "sorted_reverse t_priority (queue s) = t # rest"
    by (cases "sorted_reverse t_priority (queue s)") auto
  have t_in: "t \<in> set (queue s)"
    using set_sorted_reverse [of t_priority "queue s"] srt by (metis list.set_intros(1))
  have setp: "set (queue s) = set p" using rel by (rule same_classes_set)
  have "Max (set (map t_priority p)) = t_priority t"
  proof (rule Max_eqI)
    show "finite (set (map t_priority p))" by simp
    show "t_priority t \<in> set (map t_priority p)" using t_in setp by simp
    fix y assume "y \<in> set (map t_priority p)"
    then obtain u where "u \<in> set (queue s)" and "y = t_priority u"
      using setp by auto
    with sorted_reverse_head_max [OF srt] show "y \<le> t_priority t" by simp
  qed
  moreover have fnd: "find (\<lambda>u. t_priority u = t_priority t) p = Some t"
  proof -
    have "find (\<lambda>u. t_priority u = t_priority t) p
            = find (\<lambda>u. t_priority u = t_priority t) (queue s)"
      using rel by (intro find_cong_filter) (simp add: same_classes_def)
    with sorted_reverse_head_first [OF srt] show ?thesis by simp
  qed
  ultimately have spec: "spec_next_priority p = (Some t, remove1 t p)"
    using p by (simp add: spec_next_priority_def)
  have code: "next_task s = Inr (Some t, s\<lparr>queue := rest\<rparr>)"
    using False pol srt by (simp add: next_task_def popleft_def Let_def)
  have "same_classes rest (remove1 t p)"
    unfolding same_classes_def
  proof
    fix k
    show "filter (\<lambda>u. t_priority u = k) rest = filter (\<lambda>u. t_priority u = k) (remove1 t p)"
    proof (cases "k = t_priority t")
      case True
      with sorted_reverse_tail [OF srt, of k] filter_remove1_first [OF fnd] rel
      show ?thesis by (simp add: same_classes_def)
    next
      case False
      then have "\<not> (\<lambda>u. t_priority u = k) t" by simp
      from filter_remove1_other [of "\<lambda>u. t_priority u = k", OF this, of p]
        sorted_reverse_tail [OF srt, of k] False rel
      show ?thesis by (simp add: same_classes_def)
    qed
  qed
  with spec code show ?thesis by simp
qed

lemma next_task_fifo_step:
  assumes "policy s \<noteq> lit ''priority''"
  shows "next_task s = Inr (fst (spec_next_fifo (queue s)),
                            s\<lparr>queue := snd (spec_next_fifo (queue s))\<rparr>)"
  using assms by (cases "queue s") (simp_all add: next_task_def spec_next_fifo_def popleft_def)

lemma sched_run_priority:
  "policy s = lit ''priority'' \<Longrightarrow> same_classes (queue s) p \<Longrightarrow>
     \<exists>s'. sched_run s ops = Inr (spec_run spec_next_priority p ops, s')"
proof (induction ops arbitrary: s p)
  case Nil
  show ?case by simp
next
  case (Cons x ops)
  show ?case
  proof (cases x)
    case (Submit i a pl pr now)
    let ?t = "\<lparr>t_task_id = i, t_agent_name = a, t_payload = pl, t_priority = pr,
               t_submitted_at = now, t_status = lit ''queued''\<rparr>"
    have "policy (snd (submit s i a pl pr now)) = lit ''priority''"
      using Cons.prems(1) by (simp add: submit_def Let_def)
    moreover have "same_classes (queue (snd (submit s i a pl pr now))) (p @ [?t])"
      using same_classes_append [OF Cons.prems(2), of ?t] by (simp add: submit_def Let_def)
    ultimately show ?thesis
      using Cons.IH [of "snd (submit s i a pl pr now)" "p @ [?t]"] Submit by simp
  next
    case NextTask
    from next_task_priority_step [OF Cons.prems]
    obtain s1 where n: "next_task s = Inr (fst (spec_next_priority p), s1)"
      and pol: "policy s1 = lit ''priority''"
      and rel: "same_classes (queue s1) (snd (spec_next_priority p))"
      using Cons.prems(1) by auto
    from Cons.IH [OF pol rel] obtain s2 where
      "sched_run s1 ops = Inr (spec_run spec_next_priority (snd (spec_next_priority p)) ops, s2)"
      by blast
    with n NextTask show ?thesis
      by (simp add: case_prod_unfold)
  qed
qed

lemma sched_run_fifo:
  "policy s \<noteq> lit ''priority'' \<Longrightarrow>
     \<exists>s'. sched_run s ops = Inr (spec_run spec_next_fifo (queue s) ops, s')"
proof (induction ops arbitrary: s)
  case Nil
  show ?case by simp
next
  case (Cons x ops)
  show ?case
  proof (cases x)
    case (Submit i a pl pr now)
    have "policy (snd (submit s i a pl pr now)) \<noteq> lit ''priority''"
      using Cons.prems by (simp add: submit_def Let_def)
    from Cons.IH [OF this] Submit show ?thesis
      by (simp add: submit_def Let_def)
  next
    case NextTask
    let ?s1 = "s\<lparr>queue := snd (spec_next_fifo (queue s))\<rparr>"
    have "policy ?s1 \<noteq> lit ''priority''" using Cons.prems by simp
    from Cons.IH [OF this] next_task_fifo_step [OF Cons.prems] NextTask
    show ?thesis by (auto simp: case_prod_unfold)
  qed
qed


text \<open>
  C2. For every sequence of \<open>submit\<close> and \<open>next_task\<close> calls on a scheduler constructed
  with the \<open>priority\<close> policy, each \<open>next_task\<close> call returns what the description says:
  nothing on an empty queue, otherwise the earliest submitted of the pending tasks with the
  highest priority value; constructed with \<open>fifo\<close>, it returns the earliest submitted
  pending task. No call raises. On any scheduler with the \<open>priority\<close> policy and a
  non-empty queue, the task returned has the highest priority in the queue and is the
  first of that priority in queue order. Submitting priorities 1, 10, 5 in this order
  makes the priority-10 task the first returned; under \<open>fifo\<close> the first submitted task
  is returned first whatever the priorities.
\<close>

theorem next_task_policy:
  "(case Scheduler_init (lit ''priority'') of
      Inl e \<Rightarrow> False
    | Inr s0 \<Rightarrow>
        (case sched_run s0 ops of
           Inl e \<Rightarrow> False
         | Inr (rs, s') \<Rightarrow> rs = spec_run spec_next_priority [] ops))
   \<and> (case Scheduler_init (lit ''fifo'') of
        Inl e \<Rightarrow> False
      | Inr s0 \<Rightarrow>
          (case sched_run s0 ops of
             Inl e \<Rightarrow> False
           | Inr (rs, s') \<Rightarrow> rs = spec_run spec_next_fifo [] ops))
   \<and> (policy s = lit ''priority'' \<and> queue s \<noteq> [] \<longrightarrow>
        (\<exists>t s'. next_task s = Inr (Some t, s') \<and> t \<in> set (queue s)
           \<and> (\<forall>u\<in>set (queue s). t_priority u \<le> t_priority t)
           \<and> find (\<lambda>u. t_priority u = t_priority t) (queue s) = Some t))
   \<and> (case Scheduler_init (lit ''priority'') of
        Inl e \<Rightarrow> False
      | Inr s0 \<Rightarrow>
          map_sum id fst
            (sched_run s0 [Submit i1 a1 p1 1 n1, Submit i2 a2 p2 10 n2, Submit i3 a3 p3 5 n3,
                           NextTask])
          = Inr [Some \<lparr>t_task_id = i2, t_agent_name = a2, t_payload = p2, t_priority = 10,
                       t_submitted_at = n2, t_status = lit ''queued''\<rparr>])
   \<and> (case Scheduler_init (lit ''fifo'') of
        Inl e \<Rightarrow> False
      | Inr s0 \<Rightarrow>
          map_sum id fst
            (sched_run s0 [Submit i1 a1 p1 pr1 n1, Submit i2 a2 p2 pr2 n2, NextTask])
          = Inr [Some \<lparr>t_task_id = i1, t_agent_name = a1, t_payload = p1, t_priority = pr1,
                       t_submitted_at = n1, t_status = lit ''queued''\<rparr>])"
proof (intro conjI)
  have init_p: "Scheduler_init (lit ''priority'') = Inr \<lparr>policy = lit ''priority'', queue = []\<rparr>"
    by (simp add: Scheduler_init_def)
  have init_f: "Scheduler_init (lit ''fifo'') = Inr \<lparr>policy = lit ''fifo'', queue = []\<rparr>"
    by (simp add: Scheduler_init_def)
  have fp: "lit ''fifo'' \<noteq> lit ''priority''"
    by (simp add: lit_def)
  show "case Scheduler_init (lit ''priority'') of
      Inl e \<Rightarrow> False
    | Inr s0 \<Rightarrow>
        (case sched_run s0 ops of
           Inl e \<Rightarrow> False
         | Inr (rs, s') \<Rightarrow> rs = spec_run spec_next_priority [] ops)"
    using sched_run_priority [of "\<lparr>policy = lit ''priority'', queue = []\<rparr>" "[]" ops]
    by (auto simp: init_p same_classes_def)
  show "case Scheduler_init (lit ''fifo'') of
        Inl e \<Rightarrow> False
      | Inr s0 \<Rightarrow>
          (case sched_run s0 ops of
             Inl e \<Rightarrow> False
           | Inr (rs, s') \<Rightarrow> rs = spec_run spec_next_fifo [] ops)"
    using sched_run_fifo [of "\<lparr>policy = lit ''fifo'', queue = []\<rparr>" ops] fp
    by (auto simp: init_f)
  show "policy s = lit ''priority'' \<and> queue s \<noteq> [] \<longrightarrow>
        (\<exists>t s'. next_task s = Inr (Some t, s') \<and> t \<in> set (queue s)
           \<and> (\<forall>u\<in>set (queue s). t_priority u \<le> t_priority t)
           \<and> find (\<lambda>u. t_priority u = t_priority t) (queue s) = Some t)"
  proof
    assume a: "policy s = lit ''priority'' \<and> queue s \<noteq> []"
    then obtain t rest where srt: "sorted_reverse t_priority (queue s) = t # rest"
      by (cases "sorted_reverse t_priority (queue s)") auto
    have "next_task s = Inr (Some t, s\<lparr>queue := rest\<rparr>)"
      using a srt by (simp add: next_task_def popleft_def Let_def)
    moreover have "t \<in> set (queue s)"
      using set_sorted_reverse [of t_priority "queue s"] srt by (metis list.set_intros(1))
    moreover have "\<forall>u\<in>set (queue s). t_priority u \<le> t_priority t"
      using sorted_reverse_head_max [OF srt] by blast
    moreover note sorted_reverse_head_first [OF srt]
    ultimately show "\<exists>t s'. next_task s = Inr (Some t, s') \<and> t \<in> set (queue s)
           \<and> (\<forall>u\<in>set (queue s). t_priority u \<le> t_priority t)
           \<and> find (\<lambda>u. t_priority u = t_priority t) (queue s) = Some t"
      by blast
  qed
  show "case Scheduler_init (lit ''priority'') of
        Inl e \<Rightarrow> False
      | Inr s0 \<Rightarrow>
          map_sum id fst
            (sched_run s0 [Submit i1 a1 p1 1 n1, Submit i2 a2 p2 10 n2, Submit i3 a3 p3 5 n3,
                           NextTask])
          = Inr [Some \<lparr>t_task_id = i2, t_agent_name = a2, t_payload = p2, t_priority = 10,
                       t_submitted_at = n2, t_status = lit ''queued''\<rparr>]"
    by (simp add: init_p submit_def next_task_def popleft_def sorted_reverse_def Let_def)
  show "case Scheduler_init (lit ''fifo'') of
        Inl e \<Rightarrow> False
      | Inr s0 \<Rightarrow>
          map_sum id fst
            (sched_run s0 [Submit i1 a1 p1 pr1 n1, Submit i2 a2 p2 pr2 n2, NextTask])
          = Inr [Some \<lparr>t_task_id = i1, t_agent_name = a1, t_payload = p1, t_priority = pr1,
                       t_submitted_at = n1, t_status = lit ''queued''\<rparr>]"
    by (simp add: init_f fp submit_def next_task_def popleft_def Let_def)
qed

text \<open>
  Priorities 5, 7, 7 submitted as tasks 1, 2, 3; a fourth task of priority 7 arrives after
  the first \<open>next_task\<close>. The tasks come out as 2, 3, 4, 1, then nothing.
\<close>

theorem next_task_policy_witness:
  "(case Scheduler_init (lit ''priority'') of
      Inl e \<Rightarrow> None
    | Inr s0 \<Rightarrow>
        (case sched_run s0
                [Submit [1] [] () 5 [], Submit [2] [] () 7 [], Submit [3] [] () 7 [], NextTask,
                 Submit [4] [] () 7 [], NextTask, NextTask, NextTask, NextTask] of
           Inl e \<Rightarrow> None
         | Inr (rs, s') \<Rightarrow> Some (map (map_option t_task_id) rs)))
     = Some [Some [2], Some [3], Some [4], Some [1], None]"
proof -
  let ?ops = "[Submit [1] [] () 5 [], Submit [2] [] () 7 [], Submit [3] [] () 7 [], NextTask,
               Submit [4] [] () 7 [], NextTask, NextTask, NextTask, NextTask]"
  have spec: "map (map_option t_task_id) (spec_run spec_next_priority [] ?ops)
                = [Some [2], Some [3], Some [4], Some [1], None]"
    by (simp add: spec_next_priority_def)
  define r where "r = sched_run \<lparr>policy = lit ''priority'', queue = []\<rparr> ?ops"
  have init: "Scheduler_init (lit ''priority'') = Inr \<lparr>policy = lit ''priority'', queue = []\<rparr>"
    by (simp add: Scheduler_init_def)
  have "case r of
          Inl e \<Rightarrow> False
        | Inr (rs, s') \<Rightarrow> rs = spec_run spec_next_priority [] ?ops"
    using next_task_policy [of ?ops, THEN conjunct1]
    unfolding r_def init by (simp only: sum.case)
  then obtain s' where "r = Inr (spec_run spec_next_priority [] ?ops, s')"
    by (cases r) auto
  then have "(case r of Inl e \<Rightarrow> None
              | Inr (rs, s') \<Rightarrow> Some (map (map_option t_task_id) rs))
               = Some [Some [2], Some [3], Some [4], Some [1], None]"
    by (simp only: sum.case prod.case spec)
  then show ?thesis
    unfolding r_def init by (simp only: sum.case)
qed

section \<open>VectorStore: proofs\<close>



subsection \<open>What is ranked before an element\<close>







subsection \<open>The store and its ranking\<close>





lemma vs_inv_delete: "vs_inv st \<Longrightarrow> vs_inv (snd (vs_delete st doc_id))"
  by (simp add: vs_inv_def vs_delete_def distinct_map_filter)












end
